theory Spec2Isabelle
  imports Main "HOL-Library.Word" "HOL-Library.Signed_Division" "HOL-Library.Log_Nat"
    "HOL-Library.Char_ord" "HOL-Library.List_Lexorder"
begin

unbundle bit_operations_syntax

section \<open>cachefs: the cached file, its metadata and its directory entries\<close>

text \<open>
  A shallow embedding of package \<open>cachefs\<close>, in the version that quantizes the
  cache key (the decoding in \<open>Open\<close>, the loader's directory loop and its encoding,
  \<open>countingReader\<close> and \<open>file\<close> are the same in the version without it). Bytes are \<open>8 word\<close>, Go's \<open>int\<close> and
  \<open>int64\<close> are \<open>int\<close> (with the two's-complement wrap written out where a sum or a
  quotient can leave the 64-bit range), \<open>fs.FileMode\<close> is a \<open>32 word\<close>, and a
  \<open>time.Time\<close> is represented by the instant it denotes, in nanoseconds since the
  Unix epoch.
\<close>

type_synonym byte = "8 word"

datatype error =
    EOF
  | NotADirectory
  | PathError string string error
  | InvalidCacheKey error
  | EscapeError string
  | InvalidSemicolon
  | DivideByZero
  | Panic
  | Upstream string

text \<open>\<open>fileInfo\<close> holds the metadata about the cached file.\<close>

record fileInfo =
  Nm :: string
  Sz :: int
  Md :: "32 word"
  Mt :: int

text \<open>\<open>fs.ModeDir\<close> is the top bit of the mode; \<open>FileMode.IsDir\<close> tests it.\<close>

definition ModeDir :: "32 word" where
  "ModeDir = push_bit 31 1"

definition IsDir :: "fileInfo \<Rightarrow> bool" where
  "IsDir fi = (Md fi AND ModeDir \<noteq> 0)"

text \<open>\<open>dirEntry\<close> is the lightweight record of one child of a directory.\<close>

record dirEntry =
  dFI :: fileInfo

text \<open>
  The bytes a \<open>bytes.Reader\<close> reads from, with its read index; \<open>ByteView.Reader\<close>
  and \<open>ByteView.SliceFrom\<close> of groupcache produce such readers.
\<close>

record bytesReader =
  rs :: "byte list"
  ri :: nat

text \<open>
  \<open>file\<close> (here \<open>file_rec\<close>) represents a cached file: the embedded
  \<open>io.ReadSeeker\<close> over the content (\<open>None\<close> is Go's nil), the metadata, the
  directory read position and the directory entries.
\<close>

record file_rec =
  ReadSeeker :: "bytesReader option"
  FI :: fileInfo
  pos :: int
  Dirs :: "dirEntry list"

subsection \<open>ReadDir\<close>

text \<open>
  \<open>(*file).ReadDir\<close>. The result is the returned slice or the error, together with the
  file after the call. \<open>make\<close> with a negative length and an index below zero panic;
  both can only happen when \<open>pos\<close> has left the range of \<open>Dirs\<close>.
\<close>

definition ReadDir :: "file_rec \<Rightarrow> int \<Rightarrow> (error + dirEntry list) \<times> file_rec" where
  "ReadDir f n =
     (if \<not> IsDir (FI f) then (Inl (PathError ''readdir'' (Nm (FI f)) NotADirectory), f)
      else if n \<le> 0 then (Inr (Dirs f), f)
      else
        let max0 = int (length (Dirs f)) - pos f;
            max1 = (if n < max0 then n else max0)
        in if max1 = 0 then (Inl EOF, f)
           else if max1 < 0 \<or> pos f < 0 then (Inl Panic, f)
           else (Inr (take (nat max1) (drop (nat (pos f)) (Dirs f))),
                 f\<lparr>pos := pos f + max1\<rparr>))"

text \<open>A caller's sequence of \<open>ReadDir\<close> calls on one file, one page size per call.\<close>

fun ReadDirs :: "file_rec \<Rightarrow> int list \<Rightarrow> file_rec" where
  "ReadDirs f [] = f"
| "ReadDirs f (n # ns) = ReadDirs (snd (ReadDir f n)) ns"

text \<open>
  The paging loop of a caller (as in \<open>TestReadDirLoop\<close>): call \<open>ReadDir n\<close> until it
  returns an error, collecting the batches. The loop does not end for \<open>n \<le> 0\<close>, so it
  carries a bound on the number of calls; \<open>None\<close> means the bound was reached.
\<close>

fun readDirLoop :: "nat \<Rightarrow> file_rec \<Rightarrow> int \<Rightarrow> (dirEntry list list \<times> error \<times> file_rec) option" where
  "readDirLoop 0 f n = None"
| "readDirLoop (Suc k) f n =
     (case ReadDir f n of
        (Inl e, f') \<Rightarrow> Some ([], e, f')
      | (Inr batch, f') \<Rightarrow>
          (case readDirLoop k f' n of
             None \<Rightarrow> None
           | Some (bs, e, f'') \<Rightarrow> Some (batch # bs, e, f'')))"

text \<open>The cursor invariant of a directory: \<open>0 \<le> pos \<le> len(Dirs)\<close>.\<close>

definition dirInv :: "file_rec \<Rightarrow> bool" where
  "dirInv f = (0 \<le> pos f \<and> pos f \<le> int (length (Dirs f)))"

text \<open>\<open>ceil(a / b)\<close> for a positive \<open>b\<close>.\<close>

definition ceilDiv :: "int \<Rightarrow> int \<Rightarrow> int" where
  "ceilDiv a b = (a + b - 1) div b"

text \<open>A directory with three children and a regular file, as decoded (cursor at 0).\<close>

definition childA :: dirEntry where
  "childA = \<lparr>dFI = \<lparr>Nm = ''a.txt'', Sz = 2, Md = 0x1A4, Mt = 1\<rparr>\<rparr>"

definition childB :: dirEntry where
  "childB = \<lparr>dFI = \<lparr>Nm = ''b'', Sz = 0, Md = 0x800001ED, Mt = 2\<rparr>\<rparr>"

definition childC :: dirEntry where
  "childC = \<lparr>dFI = \<lparr>Nm = ''c.go'', Sz = 7, Md = 0x1A4, Mt = 3\<rparr>\<rparr>"

definition exampleDir :: file_rec where
  "exampleDir = \<lparr>ReadSeeker = Some \<lparr>rs = [], ri = 0\<rparr>,
                  FI = \<lparr>Nm = ''.'', Sz = 4096, Md = 0x800001ED, Mt = 5\<rparr>,
                  pos = 0, Dirs = [childA, childB, childC]\<rparr>"

section \<open>quantize\<close>

subsection \<open>adler32.Checksum\<close>

text \<open>
  \<open>hash/adler32\<close>, as RFC 1950 defines it: two sums modulo 65521 over the bytes of the
  string, \<open>a\<close> starting at 1 and \<open>b\<close> at 0, combined as \<open>b << 16 | a\<close>. (The Go
  library defers the reductions modulo 65521 to the end of each block of 5552 bytes;
  the 32-bit sums cannot overflow within a block, so the value is the same.)
\<close>

definition adler32_mod :: nat where
  "adler32_mod = 65521"

definition adler32_step :: "nat \<times> nat \<Rightarrow> char \<Rightarrow> nat \<times> nat" where
  "adler32_step ab c =
     (let a' = (fst ab + of_char c) mod adler32_mod in (a', (snd ab + a') mod adler32_mod))"

definition adler32_Checksum :: "string \<Rightarrow> nat" where
  "adler32_Checksum s = (let ab = foldl adler32_step (1, 0) s in snd ab * 65536 + fst ab)"

subsection \<open>The float64 arithmetic of the offset\<close>

text \<open>
  \<open>float64(x)\<close> for an integer \<open>x\<close>, and the float64 product of two integer-valued
  floats, round the exact integer to 53 significant bits, to nearest, ties to even
  (IEEE 754 binary64; no overflow or underflow can occur below \<open>2^1023\<close>). The
  result is again an integer. \<open>bitlen a\<close> is the number of bits of \<open>a\<close>.
\<close>

definition round53 :: "int \<Rightarrow> int" where
  "round53 x =
     (let a = \<bar>x\<bar>; e = bitlen a - 53
      in if e \<le> 0 then x
         else
           let q = a div 2 ^ nat e;
               r = a mod 2 ^ nat e;
               h = 2 ^ (nat e - 1);
               q' = (if h < r \<or> (r = h \<and> odd q) then q + 1 else q)
           in sgn x * (q' * 2 ^ nat e))"

text \<open>
  The offset of \<open>quantize\<close>:
  \<open>time.Duration(float64(sum) * float64(d) / float64(2<<31) / 4.0)\<close>.
  \<open>float64(sum)\<close> is exact for a 32-bit checksum, the two divisions by powers of two
  are exact, and the conversion to \<open>time.Duration\<close> (an int64) truncates towards
  zero, which is \<open>sdiv\<close>.
\<close>

definition offset_of :: "nat \<Rightarrow> int \<Rightarrow> int" where
  "offset_of cksum d = round53 (int cksum * round53 d) sdiv 2 ^ 34"

text \<open>Two's-complement wrap-around of an int64 result.\<close>

definition wrap64 :: "int \<Rightarrow> int" where
  "wrap64 x = (x + 2 ^ 63) mod 2 ^ 64 - 2 ^ 63"

definition is_int64 :: "int \<Rightarrow> bool" where
  "is_int64 x = (- (2 ^ 63) \<le> x \<and> x < 2 ^ 63)"

text \<open>
  The divisor of \<open>quantize\<close>, \<open>int64(d.Nanoseconds() + offset.Nanoseconds())\<close>: the
  effective period of the path.
\<close>

definition period_of :: "int \<Rightarrow> string \<Rightarrow> int" where
  "period_of d s = wrap64 (d + offset_of (adler32_Checksum s) d)"

text \<open>
  \<open>quantize\<close>. The time \<open>t\<close> is given by \<open>t.UnixNano()\<close>. Go's integer division
  truncates towards zero, panics on a zero divisor, and wraps for
  \<open>MinInt64 / -1\<close>.
\<close>

definition quantize :: "int \<Rightarrow> int \<Rightarrow> string \<Rightarrow> error + int" where
  "quantize t d s =
     (if d = 0 then Inr 0
      else
        let cksum = adler32_Checksum s;
            offset = offset_of cksum d;
            divisor = wrap64 (d + offset)
        in if divisor = 0 then Inl DivideByZero
           else Inr (wrap64 (t sdiv divisor)))"

section \<open>The cache key\<close>

subsection \<open>net/url: query escaping\<close>

text \<open>
  \<open>shouldEscape(c, encodeQueryComponent)\<close>: letters, digits and the marks
  \<open>- _ . ~\<close> are left alone; every other byte is escaped.
\<close>

definition shouldEscape :: "char \<Rightarrow> bool" where
  "shouldEscape c =
     (if (CHR ''a'' \<le> c \<and> c \<le> CHR ''z'') \<or> (CHR ''A'' \<le> c \<and> c \<le> CHR ''Z'')
          \<or> (CHR ''0'' \<le> c \<and> c \<le> CHR ''9'') then False
      else if c = CHR ''-'' \<or> c = CHR ''_'' \<or> c = CHR ''.'' \<or> c = CHR ''~'' then False
      else True)"

definition upperhex :: string where
  "upperhex = ''0123456789ABCDEF''"

text \<open>
  \<open>QueryEscape\<close>: a space becomes \<open>+\<close>, a byte to escape becomes \<open>%\<close> and its two
  upper-case hexadecimal digits (\<open>c >> 4\<close> and \<open>c & 15\<close>), any other byte is copied.
\<close>

fun QueryEscape :: "string \<Rightarrow> string" where
  "QueryEscape [] = []"
| "QueryEscape (c # cs) =
     (if c = CHR '' '' then CHR ''+'' # QueryEscape cs
      else if shouldEscape c then
        CHR ''%'' # upperhex ! (of_char c div 16) # upperhex ! (of_char c mod 16) # QueryEscape cs
      else c # QueryEscape cs)"

definition ishex :: "char \<Rightarrow> bool" where
  "ishex c = ((CHR ''0'' \<le> c \<and> c \<le> CHR ''9'') \<or> (CHR ''a'' \<le> c \<and> c \<le> CHR ''f'')
              \<or> (CHR ''A'' \<le> c \<and> c \<le> CHR ''F''))"

definition unhex :: "char \<Rightarrow> nat" where
  "unhex c =
     (if CHR ''0'' \<le> c \<and> c \<le> CHR ''9'' then of_char c - of_char CHR ''0''
      else if CHR ''a'' \<le> c \<and> c \<le> CHR ''f'' then of_char c - of_char CHR ''a'' + 10
      else if CHR ''A'' \<le> c \<and> c \<le> CHR ''F'' then of_char c - of_char CHR ''A'' + 10
      else 0)"

text \<open>
  \<open>QueryUnescape\<close>: \<open>%XX\<close> becomes the byte \<open>unhex(X) << 4 | unhex(X)\<close>, \<open>+\<close> becomes a
  space; a \<open>%\<close> that is not followed by two hexadecimal digits is an \<open>EscapeError\<close>
  carrying at most three bytes from the \<open>%\<close> on. The library checks the whole string
  before it builds the result, so the error is the one of the leftmost bad escape.
\<close>

fun QueryUnescape :: "string \<Rightarrow> error + string" where
  "QueryUnescape [] = Inr []"
| "QueryUnescape (c # cs) =
     (if c = CHR ''%'' then
        (case cs of
           h1 # h2 # rest \<Rightarrow>
             if ishex h1 \<and> ishex h2 then
               (case QueryUnescape rest of
                  Inl e \<Rightarrow> Inl e
                | Inr t \<Rightarrow> Inr (char_of (unhex h1 * 16 + unhex h2) # t))
             else Inl (EscapeError (take 3 (c # cs)))
         | _ \<Rightarrow> Inl (EscapeError (take 3 (c # cs))))
      else
        (case QueryUnescape cs of
           Inl e \<Rightarrow> Inl e
         | Inr t \<Rightarrow> Inr ((if c = CHR ''+'' then CHR '' '' else c) # t)))"

subsection \<open>net/url: Values\<close>

text \<open>
  \<open>url.Values\<close> is a map from keys to lists of values; it is kept here as an
  association list with one pair per key.
\<close>

type_synonym Values = "(string \<times> string list) list"

definition Values_lookup :: "Values \<Rightarrow> string \<Rightarrow> string list" where
  "Values_lookup v key = (case map_of v key of None \<Rightarrow> [] | Some vs \<Rightarrow> vs)"

definition Values_Get :: "Values \<Rightarrow> string \<Rightarrow> string" where
  "Values_Get v key = (case Values_lookup v key of [] \<Rightarrow> [] | x # _ \<Rightarrow> x)"

definition Values_Set :: "Values \<Rightarrow> string \<Rightarrow> string \<Rightarrow> Values" where
  "Values_Set v key val = (key, [val]) # filter (\<lambda>kv. fst kv \<noteq> key) v"

definition Values_Add :: "Values \<Rightarrow> string \<Rightarrow> string \<Rightarrow> Values" where
  "Values_Add v key val =
     (key, Values_lookup v key @ [val]) # filter (\<lambda>kv. fst kv \<noteq> key) v"

text \<open>
  \<open>Values.Encode\<close>: the pairs \<open>key=value\<close>, both escaped, sorted by key and joined
  by \<open>&\<close>.
\<close>

fun joinAmp :: "string list \<Rightarrow> string" where
  "joinAmp [] = []"
| "joinAmp [x] = x"
| "joinAmp (x # y # ys) = x @ CHR ''&'' # joinAmp (y # ys)"

definition Values_Encode :: "Values \<Rightarrow> string" where
  "Values_Encode v =
     joinAmp (concat (map (\<lambda>kv. map (\<lambda>val. QueryEscape (fst kv) @ CHR ''='' # QueryEscape val) (snd kv))
                          (sort_key fst v)))"

text \<open>\<open>strings.Cut\<close> with a separator of one byte: the text before and after it.\<close>

definition Cut :: "char \<Rightarrow> string \<Rightarrow> string \<times> string" where
  "Cut sep s = (takeWhile (\<lambda>c. c \<noteq> sep) s, drop 1 (dropWhile (\<lambda>c. c \<noteq> sep) s))"

text \<open>
  \<open>parseQuery\<close>: the loop over the \<open>&\<close>-separated settings of the query. A setting
  with a semicolon sets the error, an empty one is skipped, a bad escape sets the error
  if none is set yet, and any other setting is added to the map.
\<close>

function parseQuery :: "Values \<Rightarrow> error option \<Rightarrow> string \<Rightarrow> Values \<times> error option" where
  "parseQuery m err query =
     (if query = [] then (m, err)
      else if CHR '';'' \<in> set (fst (Cut CHR ''&'' query)) then
        parseQuery m (Some InvalidSemicolon) (snd (Cut CHR ''&'' query))
      else if fst (Cut CHR ''&'' query) = [] then
        parseQuery m err (snd (Cut CHR ''&'' query))
      else
        (case QueryUnescape (fst (Cut CHR ''='' (fst (Cut CHR ''&'' query)))) of
           Inl e1 \<Rightarrow>
             parseQuery m (if err = None then Some e1 else err) (snd (Cut CHR ''&'' query))
         | Inr key \<Rightarrow>
             (case QueryUnescape (snd (Cut CHR ''='' (fst (Cut CHR ''&'' query)))) of
                Inl e1 \<Rightarrow>
                  parseQuery m (if err = None then Some e1 else err) (snd (Cut CHR ''&'' query))
              | Inr val \<Rightarrow>
                  parseQuery (Values_Add m key val) err (snd (Cut CHR ''&'' query)))))"
  by pat_completeness auto
termination
proof -
  have shorter: "length (dropWhile P q) - Suc 0 < length q" if "q \<noteq> []" for P and q :: string
  proof -
    from that have "0 < length q" by simp
    moreover have "length (dropWhile P q) \<le> length q" by (rule length_dropWhile_le)
    ultimately show ?thesis by linarith
  qed
  show ?thesis
    by (relation "measure (\<lambda>(m, err, query). length query)") (auto simp: Cut_def shorter)
qed

declare parseQuery.simps [simp del]

definition ParseQuery :: "string \<Rightarrow> Values \<times> error option" where
  "ParseQuery query = parseQuery [] None query"

subsection \<open>strconv.FormatInt in base 10\<close>

definition digit_char :: "nat \<Rightarrow> char" where
  "digit_char n = char_of (of_char CHR ''0'' + n)"

fun formatNat :: "nat \<Rightarrow> string" where
  "formatNat n = (if n < 10 then [digit_char n] else formatNat (n div 10) @ [digit_char (n mod 10)])"

declare formatNat.simps [simp del]

definition FormatInt :: "int \<Rightarrow> string" where
  "FormatInt i = (if i < 0 then CHR ''-'' # formatNat (nat (- i)) else formatNat (nat i))"

subsection \<open>The key built by Open and the path recovered by the loader\<close>

text \<open>
  \<open>cacheFS.Open\<close>, the key construction: \<open>q.Set("t", strconv.FormatInt(t, 10))\<close>,
  \<open>q.Set("path", name)\<close>, \<open>q.Encode()\<close>, for the bucket \<open>t\<close> that \<open>quantize\<close> returned.
\<close>

definition openKey :: "int \<Rightarrow> string \<Rightarrow> string" where
  "openKey t name =
     Values_Encode (Values_Set (Values_Set [] ''t'' (FormatInt t)) ''path'' name)"


section \<open>The record codec\<close>

subsection \<open>countingReader\<close>

text \<open>
  \<open>bytes.Reader.Read\<close> into a buffer of length \<open>k\<close>: at the end of the data it returns
  no bytes and \<open>io.EOF\<close>; otherwise it copies up to \<open>k\<close> bytes and advances the index.
  The bytes copied stand for the filled part of the buffer, their number for \<open>n\<close>.
\<close>

definition bytesReader_Read :: "bytesReader \<Rightarrow> nat \<Rightarrow> (byte list \<times> error option) \<times> bytesReader" where
  "bytesReader_Read r k =
     (if length (rs r) \<le> ri r then (([], Some EOF), r)
      else let bs = take k (drop (ri r) (rs r))
           in ((bs, None), r\<lparr>ri := ri r + length bs\<rparr>))"

text \<open>\<open>countingReader\<close> is a reader that counts how many bytes have been read.\<close>

record countingReader =
  Reader :: bytesReader
  count :: int

text \<open>\<open>Read\<close> implements \<open>io.Reader\<close>: \<open>n, err := c.Reader.Read(buf); c.count += n\<close>.\<close>

definition countingReader_Read ::
  "countingReader \<Rightarrow> nat \<Rightarrow> (byte list \<times> error option) \<times> countingReader" where
  "countingReader_Read c k =
     (let res = bytesReader_Read (Reader c) k
      in (fst res, c\<lparr>Reader := snd res, count := count c + int (length (fst (fst res)))\<rparr>))"

text \<open>
  \<open>ReadByte\<close> implements \<open>io.ByteReader\<close>: a \<open>Read\<close> into a buffer of one byte, whose
  first byte (zero when nothing was read) is returned with the error.
\<close>

definition countingReader_ReadByte ::
  "countingReader \<Rightarrow> (byte \<times> error option) \<times> countingReader" where
  "countingReader_ReadByte c =
     (let res = countingReader_Read c 1
      in (((case fst (fst res) of [] \<Rightarrow> 0 | b # _ \<Rightarrow> b), snd (fst res)), snd res))"

definition Count :: "countingReader \<Rightarrow> int" where
  "Count c = count c"

subsection \<open>The gob decoder as a client of the reader\<close>

text \<open>
  \<open>encoding/gob\<close> is not part of the package. Its decoder is taken as a parameter: a
  procedure that, step by step, finishes with a value, fails, asks its reader for up
  to \<open>k\<close> bytes (\<open>Read\<close>) or asks it for one byte (\<open>ReadByte\<close>), and continues with
  what the reader returned. The value it decodes into a \<open>file\<close> consists of the exported
  fields \<open>FI\<close> and \<open>Dirs\<close>; \<open>pos\<close> is not exported and the embedded \<open>ReadSeeker\<close> is nil
  when the loader encodes.
\<close>

datatype 'a decoder =
    Done 'a
  | Fail error
  | NeedRead nat "byte list \<times> error option \<Rightarrow> 'a decoder"
  | NeedReadByte "byte \<times> error option \<Rightarrow> 'a decoder"

type_synonym gobValue = "fileInfo \<times> dirEntry list"

text \<open>\<open>decoder.Decode\<close> running on the \<open>countingReader\<close> that \<open>Open\<close> hands to gob.\<close>

primrec Decode :: "'a decoder \<Rightarrow> countingReader \<Rightarrow> (error + 'a) \<times> countingReader" where
  "Decode (Done x) = (\<lambda>c. (Inr x, c))"
| "Decode (Fail e) = (\<lambda>c. (Inl e, c))"
| "Decode (NeedRead k f) =
     (\<lambda>c. let res = countingReader_Read c k in Decode (f (fst res)) (snd res))"
| "Decode (NeedReadByte f) =
     (\<lambda>c. let res = countingReader_ReadByte c in Decode (f (fst res)) (snd res))"

text \<open>
  What the same decoder does on a plain stream of bytes, given as the list of bytes
  still to come: the value or error it ends with and the bytes it has left unread.
  This is the view in which gob's behaviour is stated: a decoder that is given
  the encoding of a value followed by other bytes returns the value and leaves the
  other bytes unread.
\<close>

primrec feed :: "'a decoder \<Rightarrow> byte list \<Rightarrow> (error + 'a) \<times> byte list" where
  "feed (Done x) = (\<lambda>bs. (Inr x, bs))"
| "feed (Fail e) = (\<lambda>bs. (Inl e, bs))"
| "feed (NeedRead k f) =
     (\<lambda>bs. if bs = [] then feed (f ([], Some EOF)) bs
           else feed (f (take k bs, None)) (drop k bs))"
| "feed (NeedReadByte f) =
     (\<lambda>bs. case bs of [] \<Rightarrow> feed (f (0, Some EOF)) []
           | b # bs' \<Rightarrow> feed (f (b, None)) bs')"

subsection \<open>Encoding in the loader, decoding in Open\<close>

text \<open>The zero \<open>time.Time\<close> (January 1, year 1, UTC) in nanoseconds since the Unix epoch.\<close>

definition zeroTime :: int where
  "zeroTime = - 62135596800000000000"

text \<open>\<open>var f file\<close>: the zero value that \<open>Open\<close> decodes into.\<close>

definition zeroFile :: file_rec where
  "zeroFile = \<lparr>ReadSeeker = None, FI = \<lparr>Nm = [], Sz = 0, Md = 0, Mt = zeroTime\<rparr>,
                pos = 0, Dirs = []\<rparr>"

text \<open>\<open>ByteView.Reader\<close> and \<open>ByteView.SliceFrom\<close>; slicing beyond the view panics.\<close>

definition ByteView_Reader :: "byte list \<Rightarrow> bytesReader" where
  "ByteView_Reader b = \<lparr>rs = b, ri = 0\<rparr>"

definition SliceFrom :: "byte list \<Rightarrow> int \<Rightarrow> error + byte list" where
  "SliceFrom b n = (if 0 \<le> n \<and> n \<le> int (length b) then Inr (drop (nat n) b) else Inl Panic)"

text \<open>
  The end of the getter function of \<open>New\<close>: the gob encoding of \<open>resultFile\<close>, then
  the data written after it. \<open>bytes.Buffer.Write\<close> writes all of the data and the
  byte-view sink accepts the bytes, so the two checks that follow cannot fail.
\<close>

definition encodeEntry :: "(gobValue \<Rightarrow> error + byte list) \<Rightarrow> file_rec \<Rightarrow> byte list \<Rightarrow> error + byte list" where
  "encodeEntry genc resultFile data =
     (case genc (FI resultFile, Dirs resultFile) of
        Inl err \<Rightarrow> Inl err
      | Inr hb \<Rightarrow> Inr (hb @ data))"

text \<open>
  The decoding in \<open>cacheFS.Open\<close>: gob decodes into \<open>f\<close> through the counting reader,
  and the rest of the view, from the count on, becomes the content of the file.
\<close>

definition decodeEntry :: "string \<Rightarrow> gobValue decoder \<Rightarrow> byte list \<Rightarrow> error + file_rec" where
  "decodeEntry name dec buf =
     (let rdr = \<lparr>Reader = ByteView_Reader buf, count = 0\<rparr>
      in case Decode dec rdr of
           (Inl err, rdr') \<Rightarrow> Inl (PathError ''open'' name err)
         | (Inr v, rdr') \<Rightarrow>
             (case SliceFrom buf (Count rdr') of
                Inl e \<Rightarrow> Inl e
              | Inr rest \<Rightarrow>
                  Inr (zeroFile\<lparr>FI := fst v, Dirs := snd v,
                                ReadSeeker := Some (ByteView_Reader rest)\<rparr>)))"

text \<open>
  A two-byte stand-in for gob, to run the codec on concrete buffers: the header of
  \<open>exampleDir\<close> is encoded as the bytes \<open>0x2A 0x01\<close> and the header of the regular
  file \<open>a.txt\<close> as \<open>0x2A 0x02\<close>, read back with one \<open>ReadByte\<close> and one \<open>Read\<close>.
\<close>

definition exampleDirValue :: gobValue where
  "exampleDirValue = (FI exampleDir, Dirs exampleDir)"

definition exampleFileValue :: gobValue where
  "exampleFileValue = (\<lparr>Nm = ''a.txt'', Sz = 2, Md = 0x1A4, Mt = 1\<rparr>, [])"

definition exampleEncoder :: "gobValue \<Rightarrow> error + byte list" where
  "exampleEncoder v =
     (if v = exampleDirValue then Inr [0x2A, 0x01]
      else if v = exampleFileValue then Inr [0x2A, 0x02]
      else Inl (Upstream ''gob: type not registered''))"

definition exampleDecoder :: "gobValue decoder" where
  "exampleDecoder =
     NeedReadByte (\<lambda>r1.
       if snd r1 \<noteq> None then Fail EOF
       else if fst r1 \<noteq> 0x2A then Fail (Upstream ''gob: bad data'')
       else NeedRead 1 (\<lambda>r2.
         if fst r2 = [0x01] then Done exampleDirValue
         else if fst r2 = [0x02] then Done exampleFileValue
         else Fail (Upstream ''gob: bad data'')))"

section \<open>The loader\<close>

text \<open>
  The wrapped file system, as far as the getter function of \<open>New\<close> uses it. An
  \<open>fs.DirEntry\<close> gives its name and type and, on request, its \<open>fs.FileInfo\<close> or an
  error. An open \<open>fs.File\<close> gives the result of \<open>Stat\<close>, of \<open>ReadDir(-1)\<close> when it is
  an \<open>fs.ReadDirFile\<close> (\<open>None\<close> when it is not, where the type assertion panics), and
  of \<open>io.ReadAll\<close>.
\<close>

record innerEntry =
  eName :: string
  eType :: "32 word"
  eInfo :: "error + fileInfo"

record innerFile =
  fStat :: "error + fileInfo"
  fReadDir :: "(error + innerEntry list) option"
  fReadAll :: "error + byte list"

type_synonym innerFS = "string \<Rightarrow> error + innerFile"

text \<open>
  The loop over the entries of a directory: with \<open>noStat\<close> unset, an entry whose
  \<open>Info\<close> fails is passed over (\<open>continue\<close>) and any other entry is appended with the
  name, mode, size and modification time of its info; with \<open>noStat\<close> set, every entry
  is appended with its name and type only.
\<close>

fun appendEntries :: "bool \<Rightarrow> dirEntry list \<Rightarrow> innerEntry list \<Rightarrow> dirEntry list" where
  "appendEntries noStat ds [] = ds"
| "appendEntries noStat ds (entry # entries) =
     (if \<not> noStat then
        (case eInfo entry of
           Inl err \<Rightarrow> appendEntries noStat ds entries
         | Inr fi \<Rightarrow>
             appendEntries noStat
               (ds @ [\<lparr>dFI = \<lparr>Nm = Nm fi, Sz = Sz fi, Md = Md fi, Mt = Mt fi\<rparr>\<rparr>]) entries)
      else
        appendEntries noStat
          (ds @ [\<lparr>dFI = \<lparr>Nm = eName entry, Sz = 0, Md = eType entry, Mt = zeroTime\<rparr>\<rparr>]) entries)"

text \<open>
  The getter function that \<open>New\<close> registers with groupcache: parse the key, open and
  stat the file, list the directory or read the file, and encode the result.
\<close>

definition getter ::
  "innerFS \<Rightarrow> bool \<Rightarrow> (gobValue \<Rightarrow> error + byte list) \<Rightarrow> string \<Rightarrow> error + byte list" where
  "getter innerFS noStat genc key =
     (case ParseQuery key of
        (q, Some err) \<Rightarrow> Inl (InvalidCacheKey err)
      | (q, None) \<Rightarrow>
          (case innerFS (Values_Get q ''path'') of
             Inl err \<Rightarrow> Inl err
           | Inr f \<Rightarrow>
               (case fStat f of
                  Inl err \<Rightarrow> Inl err
                | Inr info \<Rightarrow>
                    let resultFile =
                          zeroFile\<lparr>FI := \<lparr>Nm = Nm info, Sz = Sz info, Md = Md info, Mt = Mt info\<rparr>\<rparr>
                    in if IsDir info then
                         (case fReadDir f of
                            None \<Rightarrow> Inl Panic
                          | Some (Inl err) \<Rightarrow> Inl err
                          | Some (Inr entries) \<Rightarrow>
                              encodeEntry genc
                                (resultFile\<lparr>Dirs := appendEntries noStat [] entries\<rparr>) [])
                       else
                         (case fReadAll f of
                            Inl err \<Rightarrow> Inl err
                          | Inr data \<Rightarrow> encodeEntry genc resultFile data))))"

text \<open>
  The listing the specification asks for: the children whose metadata could be
  fetched, in enumeration order, each with that metadata.
\<close>

definition survivingChildren :: "innerEntry list \<Rightarrow> dirEntry list" where
  "survivingChildren entries =
     List.map_filter (\<lambda>e. case eInfo e of Inl err \<Rightarrow> None | Inr fi \<Rightarrow> Some \<lparr>dFI = fi\<rparr>) entries"

text \<open>
  A directory of the wrapped file system whose second child cannot be stat'ed, and a
  file system that has only this directory, at the path \<open>.\<close>.
\<close>

definition exampleEntries :: "innerEntry list" where
  "exampleEntries =
     [\<lparr>eName = ''a.txt'', eType = 0, eInfo = Inr (dFI childA)\<rparr>,
      \<lparr>eName = ''gone'', eType = 0, eInfo = Inl (Upstream ''lstat gone: no such file or directory'')\<rparr>,
      \<lparr>eName = ''b'', eType = 0x80000000, eInfo = Inr (dFI childB)\<rparr>,
      \<lparr>eName = ''c.go'', eType = 0, eInfo = Inr (dFI childC)\<rparr>]"

definition exampleInnerFS :: innerFS where
  "exampleInnerFS path =
     (if path = ''.'' then
        Inr \<lparr>fStat = Inr (FI exampleDir), fReadDir = Some (Inr exampleEntries),
             fReadAll = Inl (Upstream ''read .: is a directory'')\<rparr>
      else Inl (Upstream ''file does not exist''))"

section \<open>Properties\<close>

subsection \<open>Paged directory reads\<close>

lemma ReadDir_dirInv: "dirInv f \<Longrightarrow> dirInv (snd (ReadDir f n))"
  by (auto simp: dirInv_def ReadDir_def Let_def)

lemma ReadDirs_dirInv: "dirInv f \<Longrightarrow> dirInv (ReadDirs f ns)"
  by (induction ns arbitrary: f) (auto simp: ReadDir_dirInv)

lemma ReadDir_page:
  assumes "IsDir (FI f)" "dirInv f" "0 < n"
  shows "ReadDir f n =
     (if pos f = int (length (Dirs f)) then (Inl EOF, f)
      else (Inr (take (nat n) (drop (nat (pos f)) (Dirs f))),
            f\<lparr>pos := pos f + int (length (take (nat n) (drop (nat (pos f)) (Dirs f))))\<rparr>))"
proof -
  from assms(2) obtain p where p: "pos f = int p" "p \<le> length (Dirs f)"
    by (auto simp: dirInv_def dest: zero_le_imp_eq_int)
  from assms(3) obtain m where m: "n = int m" "0 < m"
    by (auto dest: zero_less_imp_eq_int)
  show ?thesis
  proof (cases "p = length (Dirs f)")
    case True
    with assms(1) p m show ?thesis by (simp add: ReadDir_def Let_def)
  next
    case False
    with p have lt: "p < length (Dirs f)" by simp
    show ?thesis
    proof (cases "m < length (Dirs f) - p")
      case True
      with assms(1) p m lt show ?thesis
        by (simp add: ReadDir_def Let_def min_def of_nat_diff)
    next
      case ge: False
      then have tk: "take m (drop p (Dirs f)) = drop p (Dirs f)" by simp
      have tk': "take (length (Dirs f) - p) (drop p (Dirs f)) = drop p (Dirs f)"
        by simp
      from ge have a: "\<not> int m < int (length (Dirs f)) - int p" using lt by linarith
      have b: "nat (int (length (Dirs f)) - int p) = length (Dirs f) - p" by simp
      from assms(1) p m lt ge show ?thesis
        by (simp add: ReadDir_def Let_def a b tk tk' of_nat_diff)
    qed
  qed
qed

lemma ceilDiv_step:
  assumes "0 < n" "0 < r"
  shows "ceilDiv (r - (if n < r then n else r)) n = ceilDiv r n - 1"
proof (cases "n < r")
  case True
  have "(r + n - 1) div n = (n + (r - 1)) div n" by (simp add: algebra_simps)
  also have "\<dots> = (r - 1) div n + 1" using assms(1) by (simp add: div_add_self1)
  finally show ?thesis using True by (simp add: ceilDiv_def)
next
  case False
  with assms have a: "(r + n - 1) div n = 1" by (intro int_div_pos_eq[where r = "r - 1"]) auto
  have b: "(n - 1) div n = 0" using assms by simp
  from False a b show ?thesis by (simp add: ceilDiv_def)
qed

lemma take_drop_len: "take m ys @ drop (length (take m ys)) ys = ys"
proof (cases "m \<le> length ys")
  case True
  then show ?thesis by (simp add: min_def)
next
  case False
  then show ?thesis by simp
qed

lemma ceilDiv_0: "0 < n \<Longrightarrow> ceilDiv 0 n = 0"
  by (simp add: ceilDiv_def)

lemma ceilDiv_pos: "0 < n \<Longrightarrow> 0 < r \<Longrightarrow> 0 < ceilDiv r n"
  unfolding ceilDiv_def by (simp add: pos_imp_zdiv_pos_iff)

lemma pos_update_same: "pos f = p \<Longrightarrow> f\<lparr>pos := p\<rparr> = f"
  by (cases f) simp

lemma readDirLoop_pages:
  assumes "IsDir (FI f)" "dirInv f" "0 < n" "ceilDiv (int (length (Dirs f)) - pos f) n \<le> int k"
  shows "\<exists>bs. readDirLoop (Suc k) f n = Some (bs, EOF, f\<lparr>pos := int (length (Dirs f))\<rparr>)
            \<and> concat bs = drop (nat (pos f)) (Dirs f)
            \<and> int (length bs) = ceilDiv (int (length (Dirs f)) - pos f) n
            \<and> (\<forall>b \<in> set bs. b \<noteq> [] \<and> int (length b) \<le> n)"
  using assms
proof (induction k arbitrary: f)
  case 0
  let ?R = "int (length (Dirs f)) - pos f"
  have "\<not> 0 < ?R" using ceilDiv_pos[of n ?R] 0 by auto
  with 0(2) have e: "pos f = int (length (Dirs f))" by (simp add: dirInv_def)
  with 0 show ?case
    by (simp add: ReadDir_page ceilDiv_0 pos_update_same)
next
  case (Suc k)
  let ?N = "int (length (Dirs f))"
  let ?R = "?N - pos f"
  show ?case
  proof (cases "pos f = ?N")
    case True
    with Suc.prems show ?thesis
      by (simp add: ReadDir_page ceilDiv_0 pos_update_same)
  next
    case False
    let ?b = "take (nat n) (drop (nat (pos f)) (Dirs f))"
    let ?f' = "f\<lparr>pos := pos f + int (length ?b)\<rparr>"
    from False Suc.prems(2) have R: "0 < ?R" by (simp add: dirInv_def)
    have lb: "int (length ?b) = (if n < ?R then n else ?R)"
      using Suc.prems(2,3) R by (auto simp: dirInv_def min_def)
    have rd: "ReadDir f n = (Inr ?b, ?f')"
      using False Suc.prems by (simp add: ReadDir_page)
    have inv': "dirInv ?f'" using Suc.prems(2) R lb by (auto simp: dirInv_def)
    have dir': "IsDir (FI ?f')" using Suc.prems(1) by simp
    have R': "int (length (Dirs ?f')) - pos ?f' = ?R - (if n < ?R then n else ?R)"
      using lb by simp
    have cd0: "ceilDiv (int (length (Dirs ?f')) - pos ?f') n = ceilDiv ?R n - 1"
      unfolding R' by (rule ceilDiv_step[OF Suc.prems(3) R])
    have cd: "ceilDiv (int (length (Dirs ?f')) - pos ?f') n \<le> int k"
      using cd0 Suc.prems(4) by simp
    from Suc.IH[OF dir' inv' Suc.prems(3) cd]
    obtain bs where bs: "readDirLoop (Suc k) ?f' n = Some (bs, EOF, ?f'\<lparr>pos := int (length (Dirs ?f'))\<rparr>)"
      "concat bs = drop (nat (pos ?f')) (Dirs ?f')"
      "int (length bs) = ceilDiv (int (length (Dirs ?f')) - pos ?f') n"
      "\<forall>b \<in> set bs. b \<noteq> [] \<and> int (length b) \<le> n"
      by blast
    have ne: "?b \<noteq> []" using lb R Suc.prems(3) by (auto split: if_splits)
    have le: "int (length ?b) \<le> n" using lb by (auto split: if_splits)
    have cc: "?b @ drop (nat (pos ?f')) (Dirs ?f') = drop (nat (pos f)) (Dirs f)"
    proof -
      have n1: "nat (pos f + int (length ?b)) = length ?b + nat (pos f)"
        using Suc.prems(2) by (simp add: dirInv_def nat_add_distrib)
      have p': "pos ?f' = pos f + int (length ?b)" by simp
      have d': "Dirs ?f' = Dirs f" by simp
      have "drop (nat (pos ?f')) (Dirs ?f') = drop (length ?b + nat (pos f)) (Dirs f)"
        unfolding p' d' n1 by (rule refl)
      also have "\<dots> = drop (length ?b) (drop (nat (pos f)) (Dirs f))"
        by (simp only: drop_drop)
      finally show ?thesis by (simp only: take_drop_len)
    qed
    have "readDirLoop (Suc (Suc k)) f n = Some (?b # bs, EOF, f\<lparr>pos := ?N\<rparr>)"
      using rd bs(1) by simp
    moreover have "concat (?b # bs) = drop (nat (pos f)) (Dirs f)"
      using bs(2) cc by simp
    moreover have "int (length (?b # bs)) = ceilDiv ?R n"
      using bs(3) cd0 by simp
    moreover have "\<forall>b \<in> set (?b # bs). b \<noteq> [] \<and> int (length b) \<le> n"
      using bs(4) ne le by simp
    ultimately show ?thesis by blast
  qed
qed

lemma exampleDir_IsDir: "IsDir (FI exampleDir)"
  by (simp add: exampleDir_def IsDir_def ModeDir_def)

text \<open>
  C3. For a directory with \<open>N\<close> children and a page size \<open>n > 0\<close>: a call returns the
  next up to \<open>n\<close> children from the cursor, in order, and advances the cursor by the
  number returned; at the end it returns no children and \<open>EOF\<close>; it never returns an
  empty result without an error; and from cursor 0 the paging loop yields
  \<open>ceil(N/n)\<close> non-empty batches of at most \<open>n\<close> children whose concatenation is the
  children list, then \<open>EOF\<close>, leaving the cursor at \<open>N\<close>.
\<close>

theorem ReadDir_paging:
  assumes "IsDir (FI f)" and "0 \<le> pos f" and "pos f \<le> int (length (Dirs f))" and "0 < n"
  shows "ReadDir f n =
           (if pos f = int (length (Dirs f)) then (Inl EOF, f)
            else (Inr (take (nat n) (drop (nat (pos f)) (Dirs f))),
                  f\<lparr>pos := pos f + int (length (take (nat n) (drop (nat (pos f)) (Dirs f))))\<rparr>))
         \<and> fst (ReadDir f n) \<noteq> Inr []
         \<and> (pos f = 0 \<longrightarrow>
             (case readDirLoop (Suc (nat (ceilDiv (int (length (Dirs f))) n))) f n of
                None \<Rightarrow> False
              | Some (bs, e, f') \<Rightarrow>
                  e = EOF \<and> concat bs = Dirs f
                  \<and> int (length bs) = ceilDiv (int (length (Dirs f))) n
                  \<and> list_all (\<lambda>b. b \<noteq> [] \<and> int (length b) \<le> n) bs
                  \<and> f' = f\<lparr>pos := int (length (Dirs f))\<rparr>))"
proof (intro conjI impI)
  have inv: "dirInv f" using assms(2,3) by (simp add: dirInv_def)
  show page: "ReadDir f n =
           (if pos f = int (length (Dirs f)) then (Inl EOF, f)
            else (Inr (take (nat n) (drop (nat (pos f)) (Dirs f))),
                  f\<lparr>pos := pos f + int (length (take (nat n) (drop (nat (pos f)) (Dirs f))))\<rparr>))"
    by (rule ReadDir_page[OF assms(1) inv assms(4)])
  show "fst (ReadDir f n) \<noteq> Inr []"
  proof (cases "pos f = int (length (Dirs f))")
    case True
    then show ?thesis by (simp add: page)
  next
    case False
    then have "nat (pos f) < length (Dirs f)" using assms(2,3) by linarith
    then show ?thesis using False assms(4) by (simp add: page)
  qed
  show "(case readDirLoop (Suc (nat (ceilDiv (int (length (Dirs f))) n))) f n of
              None \<Rightarrow> False
            | Some (bs, e, f') \<Rightarrow>
                e = EOF \<and> concat bs = Dirs f
                \<and> int (length bs) = ceilDiv (int (length (Dirs f))) n
                \<and> list_all (\<lambda>b. b \<noteq> [] \<and> int (length b) \<le> n) bs
                \<and> f' = f\<lparr>pos := int (length (Dirs f))\<rparr>)" if p0: "pos f = 0"
  proof -
    have "0 \<le> ceilDiv (int (length (Dirs f))) n"
      using assms(4) by (simp add: ceilDiv_def pos_imp_zdiv_nonneg_iff)
    then have k: "ceilDiv (int (length (Dirs f)) - pos f) n \<le> int (nat (ceilDiv (int (length (Dirs f))) n))"
      using p0 by simp
    from readDirLoop_pages[OF assms(1) inv assms(4) k] p0 show ?thesis
      by (auto simp: list_all_iff)
  qed
qed

theorem ReadDir_paging_witness:
  "IsDir (FI exampleDir) \<and> 0 \<le> pos exampleDir \<and> pos exampleDir \<le> int (length (Dirs exampleDir))
   \<and> (0::int) < 2 \<and> pos exampleDir = 0
   \<and> ReadDir exampleDir 2 = (Inr [childA, childB], exampleDir\<lparr>pos := 2\<rparr>)
   \<and> fst (ReadDir exampleDir 2) \<noteq> Inr []
   \<and> readDirLoop 3 exampleDir 2
        = Some ([[childA, childB], [childC]], EOF, exampleDir\<lparr>pos := 3\<rparr>)"
proof -
  have d: "IsDir (FI exampleDir)" by (rule exampleDir_IsDir)
  have p: "0 \<le> pos exampleDir" "pos exampleDir \<le> int (length (Dirs exampleDir))" "pos exampleDir = 0"
    by (simp_all add: exampleDir_def)
  have n: "(0::int) < 2" by simp
  note T = ReadDir_paging[OF d p(1,2) n]
  have a: "ReadDir exampleDir 2 = (Inr [childA, childB], exampleDir\<lparr>pos := 2\<rparr>)"
    using T by (simp add: exampleDir_def)
  have b: "fst (ReadDir exampleDir 2) \<noteq> Inr []"
    using T by blast
  have c3: "Suc (nat (ceilDiv (int (length (Dirs exampleDir))) 2)) = 3"
    by (simp add: exampleDir_def ceilDiv_def)
  have "case readDirLoop (Suc (nat (ceilDiv (int (length (Dirs exampleDir))) 2))) exampleDir 2 of
                None \<Rightarrow> False
              | Some (bs, e, f') \<Rightarrow>
                  e = EOF \<and> concat bs = Dirs exampleDir
                  \<and> int (length bs) = ceilDiv (int (length (Dirs exampleDir))) 2
                  \<and> list_all (\<lambda>b. b \<noteq> [] \<and> int (length b) \<le> 2) bs
                  \<and> f' = exampleDir\<lparr>pos := int (length (Dirs exampleDir))\<rparr>"
    using T p(3) by blast
  then have "readDirLoop 3 exampleDir 2
        = Some ([[childA, childB], [childC]], EOF, exampleDir\<lparr>pos := 3\<rparr>)"
    unfolding c3
    by (simp add: numeral_3_eq_3 a ReadDir_def Let_def exampleDir_def IsDir_def ModeDir_def)
  with d p n a b show ?thesis by simp
qed

text \<open>
  C2 (as the code behaves). A call with \<open>n \<le> 0\<close> on a directory returns every child,
  from the first one, whatever the cursor is, and leaves the cursor where it was:
  after one page of size 1, \<open>ReadDir 0\<close> returns all three children again and the
  cursor stays at 1.
\<close>

theorem ReadDir_all_ignores_cursor:
  "ReadDir (snd (ReadDir exampleDir 1)) 0
     = (Inr [childA, childB, childC], exampleDir\<lparr>pos := 1\<rparr>)
   \<and> snd (ReadDir exampleDir 0) = exampleDir"
  by (simp add: ReadDir_def Let_def exampleDir_def IsDir_def ModeDir_def)

subsection \<open>quantize\<close>

lemma adler32_fold_bound:
  "fst ab < adler32_mod \<Longrightarrow> snd ab < adler32_mod \<Longrightarrow>
   fst (foldl adler32_step ab s) < adler32_mod \<and> snd (foldl adler32_step ab s) < adler32_mod"
proof (induction s arbitrary: ab)
  case Nil
  then show ?case by simp
next
  case (Cons c s)
  have "fst (adler32_step ab c) < adler32_mod" "snd (adler32_step ab c) < adler32_mod"
    by (simp_all add: adler32_step_def Let_def adler32_mod_def)
  from Cons.IH[OF this] show ?case by simp
qed

lemma adler32_Checksum_bound: "adler32_Checksum s < 2 ^ 32"
proof -
  let ?ab = "foldl adler32_step (1, 0) s"
  have "fst ?ab < adler32_mod \<and> snd ?ab < adler32_mod"
    by (rule adler32_fold_bound) (simp_all add: adler32_mod_def)
  then have "fst ?ab \<le> 65520" "snd ?ab \<le> 65520" by (simp_all add: adler32_mod_def)
  then have "snd ?ab * 65536 + fst ?ab \<le> 65520 * 65536 + 65520"
    by (intro add_mono mult_right_mono) simp_all
  then show ?thesis by (simp add: adler32_Checksum_def Let_def)
qed

lemma round53_small: "bitlen \<bar>x\<bar> \<le> 53 \<Longrightarrow> round53 x = x"
  by (simp add: round53_def Let_def)

lemma round53_minus: "round53 (- x) = - round53 x"
  by (simp add: round53_def Let_def)

lemma round53_nonneg_bounds:
  assumes "0 \<le> x"
  shows "0 \<le> round53 x \<and> 2 ^ 53 * round53 x \<le> (2 ^ 53 + 1) * x"
proof (cases "bitlen \<bar>x\<bar> - 53 \<le> 0")
  case True
  then have "round53 x = x" by (simp add: round53_def Let_def)
  with assms show ?thesis by (simp add: algebra_simps)
next
  case False
  define e where "e = nat (bitlen x - 53)"
  from False assms have e: "0 < e" "bitlen x = int e + 53" by (simp_all add: e_def)
  from e have xpos: "0 < x" using assms bitlen_eq_zero_iff[of x] by (cases "x = 0") auto
  from bitlen_bounds[OF xpos] e have lo: "(2::int) ^ (e + 52) \<le> x"
    by (simp add: nat_add_distrib add.commute)
  define q where "q = x div 2 ^ e"
  define r where "r = x mod 2 ^ e"
  define h where "h = (2::int) ^ (e - 1)"
  define q' where "q' = (if h < r \<or> (r = h \<and> odd q) then q + 1 else q)"
  have ax: "\<bar>x\<bar> = x" using assms by simp
  have ne: "\<not> bitlen x - 53 \<le> 0" using False ax by simp
  have se: "nat (bitlen x - 53) = e" by (simp add: e_def)
  have sg: "sgn x = 1" using xpos by simp
  have rnd: "round53 x = q' * 2 ^ e"
    unfolding round53_def Let_def ax q'_def q_def r_def h_def
    by (simp only: ne se sg if_False mult_1)
  have x_eq: "x = q * 2 ^ e + r" unfolding q_def r_def by (rule div_mult_mod_eq[symmetric])
  have r0: "0 \<le> r" by (simp add: r_def)
  have q0: "0 \<le> q" using assms by (simp add: q_def pos_imp_zdiv_nonneg_iff)
  have h2: "2 * h = 2 ^ e" using e(1) by (simp add: h_def power_eq_if)
  have hx: "2 ^ 53 * h \<le> x"
  proof -
    have ee: "53 + (e - 1) = e + 52" using e(1) by simp
    have "(2::int) ^ 53 * 2 ^ (e - 1) = 2 ^ (e + 52)"
      unfolding ee[symmetric] by (rule power_add[symmetric])
    with lo show ?thesis unfolding h_def by (simp only:)
  qed
  have up: "q' * 2 ^ e \<le> x + h"
  proof (cases "h < r \<or> (r = h \<and> odd q)")
    case True
    then have "q' = q + 1" "h \<le> r" by (auto simp: q'_def)
    then have "q' * 2 ^ e = q * 2 ^ e + 2 * h" unfolding h2 by (simp add: algebra_simps)
    also have "\<dots> \<le> x + h" using x_eq \<open>h \<le> r\<close> by linarith
    finally show ?thesis .
  next
    case False
    then have "q' * 2 ^ e = q * 2 ^ e" by (simp add: q'_def)
    moreover have "0 \<le> h" by (simp add: h_def)
    ultimately show ?thesis using x_eq r0 by linarith
  qed
  have "0 \<le> q'" using q0 by (simp add: q'_def)
  then have nn: "0 \<le> round53 x" by (simp add: rnd)
  have "2 ^ 53 * round53 x \<le> 2 ^ 53 * (x + h)"
    using up by (simp add: rnd)
  also have "\<dots> \<le> (2 ^ 53 + 1) * x" using hx by (simp add: algebra_simps)
  finally show ?thesis using nn by simp
qed

lemma round53_abs: "\<bar>round53 x\<bar> = round53 \<bar>x\<bar>"
proof (cases "0 \<le> x")
  case True
  then show ?thesis using round53_nonneg_bounds[of x] by simp
next
  case False
  then have "0 \<le> - x" by simp
  from round53_nonneg_bounds[OF this] False show ?thesis
    by (simp add: round53_minus)
qed

lemma round53_nonneg: "0 \<le> x \<Longrightarrow> 0 \<le> round53 x"
  using round53_nonneg_bounds by blast

lemma round53_nonpos: "x \<le> 0 \<Longrightarrow> round53 x \<le> 0"
  using round53_nonneg[of "- x"] by (simp add: round53_minus)

lemma round53_abs_bound: "2 ^ 53 * \<bar>round53 x\<bar> \<le> (2 ^ 53 + 1) * \<bar>x\<bar>"
  using round53_nonneg_bounds[of "\<bar>x\<bar>"] by (simp add: round53_abs)

lemma sdiv_pos_divisor:
  "0 < b \<Longrightarrow> (a::int) sdiv b = (if 0 \<le> a then a div b else - ((- a) div b))"
  by (cases "a = 0") (auto simp: signed_divide_int_def sgn_if)

lemma sdiv_abs_pos: "0 < b \<Longrightarrow> \<bar>(a::int) sdiv b\<bar> = \<bar>a\<bar> div b"
  by (auto simp: sdiv_pos_divisor pos_imp_zdiv_nonneg_iff)

lemma sdiv_mono_pos:
  assumes "0 < b" "(a::int) \<le> a'"
  shows "a sdiv b \<le> a' sdiv b"
proof -
  consider "0 \<le> a" | "a' < 0" | "a < 0" "0 \<le> a'" using assms(2) by linarith
  then show ?thesis
  proof cases
    case 1
    with assms show ?thesis by (simp add: sdiv_pos_divisor zdiv_mono1)
  next
    case 2
    with assms have "(- a') div b \<le> (- a) div b" by (intro zdiv_mono1) simp_all
    with 2 assms show ?thesis by (simp add: sdiv_pos_divisor)
  next
    case 3
    have "0 \<le> (- a) div b" using 3 assms(1) by (simp add: pos_imp_zdiv_nonneg_iff)
    moreover have "0 \<le> a' div b" using 3 assms(1) by (simp add: pos_imp_zdiv_nonneg_iff)
    ultimately show ?thesis using 3 assms(1) by (simp add: sdiv_pos_divisor)
  qed
qed

lemma sdiv_abs_le: "0 < b \<Longrightarrow> \<bar>(a::int) sdiv b\<bar> \<le> \<bar>a\<bar>"
proof -
  assume b: "0 < b"
  have "\<bar>a\<bar> div b \<le> \<bar>a\<bar> div 1" using b by (intro zdiv_mono2) simp_all
  then show ?thesis using b by (simp add: sdiv_abs_pos)
qed

lemma sdiv_between:
  assumes "0 < b"
  shows "min a 0 \<le> (a::int) sdiv b \<and> a sdiv b \<le> max a 0"
proof (cases "0 \<le> a")
  case True
  have "a div b \<le> a div 1" using True assms by (intro zdiv_mono2) simp_all
  moreover have "0 \<le> a div b" using True assms by (simp add: pos_imp_zdiv_nonneg_iff)
  ultimately show ?thesis using True assms by (simp add: sdiv_pos_divisor)
next
  case False
  then have n: "0 \<le> - a" by simp
  have "(- a) div b \<le> (- a) div 1" using n assms by (intro zdiv_mono2) simp_all
  moreover have "0 \<le> (- a) div b" using n assms by (simp add: pos_imp_zdiv_nonneg_iff)
  ultimately show ?thesis using False assms by (simp add: sdiv_pos_divisor)
qed

lemma wrap64_id: "is_int64 x \<Longrightarrow> wrap64 x = x"
  by (simp add: wrap64_def is_int64_def)

lemma wrap64_nonzero:
  assumes "- (2 ^ 64) < x" "x < 2 ^ 64" "x \<noteq> 0"
  shows "wrap64 x \<noteq> 0"
proof -
  consider "- (2 ^ 63) \<le> x \<and> x < 2 ^ 63" | "2 ^ 63 \<le> x" | "x < - (2 ^ 63)" by linarith
  then show ?thesis
  proof cases
    case 1
    then show ?thesis using assms(3) by (simp add: wrap64_def)
  next
    case 2
    have "(x + 2 ^ 63) mod 2 ^ 64 = x - 2 ^ 63"
      using 2 assms(2) by (intro int_mod_pos_eq[where q = 1]) simp_all
    then show ?thesis using assms(2) by (simp add: wrap64_def)
  next
    case 3
    have "(x + 2 ^ 63) mod 2 ^ 64 = x + 2 ^ 63 + 2 ^ 64"
      using 3 assms(1) by (intro int_mod_pos_eq[where q = "-1"]) simp_all
    then show ?thesis using assms(1) by (simp add: wrap64_def)
  qed
qed

lemma offset_of_pos: "0 \<le> d \<Longrightarrow> 0 \<le> offset_of c d"
proof -
  assume "0 \<le> d"
  then have "0 \<le> int c * round53 d" by (simp add: round53_nonneg)
  then have "0 \<le> round53 (int c * round53 d)" by (rule round53_nonneg)
  then show ?thesis by (simp add: offset_of_def sdiv_pos_divisor pos_imp_zdiv_nonneg_iff)
qed

lemma offset_of_minus: "offset_of c (- d) = - offset_of c d"
  by (simp add: offset_of_def round53_minus signed_divide_int_def sgn_minus)

lemma offset_of_neg: "d \<le> 0 \<Longrightarrow> offset_of c d \<le> 0"
  using offset_of_pos[of "- d" c] by (simp add: offset_of_minus)

lemma offset_of_abs_bound:
  assumes c: "c < 2 ^ 32" and d: "d \<noteq> 0"
  shows "4 * \<bar>offset_of c d\<bar> < \<bar>d\<bar>"
proof -
  define D where "D = round53 d"
  define P where "P = round53 (int c * D)"
  have c': "int c \<le> 2 ^ 32 - 1" using c by (simp add: nat_less_iff)
  have dpos: "0 < \<bar>d\<bar>" using d by simp
  have b1: "2 ^ 53 * \<bar>D\<bar> \<le> (2 ^ 53 + 1) * \<bar>d\<bar>"
    unfolding D_def by (rule round53_abs_bound)
  have b2: "2 ^ 53 * \<bar>P\<bar> \<le> (2 ^ 53 + 1) * (int c * \<bar>D\<bar>)"
    using round53_abs_bound[of "int c * D"] by (simp add: P_def abs_mult)
  have "2 ^ 53 * (2 ^ 53 * \<bar>P\<bar>) \<le> 2 ^ 53 * ((2 ^ 53 + 1) * (int c * \<bar>D\<bar>))"
    using b2 by (intro mult_left_mono) simp_all
  also have "\<dots> = (2 ^ 53 + 1) * int c * (2 ^ 53 * \<bar>D\<bar>)" by (simp add: algebra_simps)
  also have "\<dots> \<le> (2 ^ 53 + 1) * int c * ((2 ^ 53 + 1) * \<bar>d\<bar>)"
    using b1 by (intro mult_left_mono) simp_all
  also have "\<dots> = ((2 ^ 53 + 1) * (2 ^ 53 + 1) * int c) * \<bar>d\<bar>" by (simp add: algebra_simps)
  also have "\<dots> \<le> ((2 ^ 53 + 1) * (2 ^ 53 + 1) * (2 ^ 32 - 1)) * \<bar>d\<bar>"
    using c' by (intro mult_right_mono mult_left_mono) simp_all
  also have "\<dots> < (2 ^ 53 * (2 ^ 53 * 2 ^ 32)) * \<bar>d\<bar>"
    using dpos by (intro mult_strict_right_mono) simp_all
  also have "\<dots> = 2 ^ 53 * (2 ^ 53 * (2 ^ 32 * \<bar>d\<bar>))" by (simp add: algebra_simps)
  finally have P: "\<bar>P\<bar> < 2 ^ 32 * \<bar>d\<bar>" by simp
  have e: "\<bar>offset_of c d\<bar> = \<bar>P\<bar> div 2 ^ 34"
    by (simp add: offset_of_def P_def D_def sdiv_abs_pos)
  have "2 ^ 34 * (\<bar>P\<bar> div 2 ^ 34) \<le> \<bar>P\<bar>"
    by (simp add: algebra_simps)
  then have "2 ^ 34 * \<bar>offset_of c d\<bar> \<le> \<bar>P\<bar>" by (simp only: e)
  also note P
  finally show ?thesis by simp
qed

lemma period_of_no_wrap:
  assumes "0 < d" "5 * d \<le> 2 ^ 65"
  shows "period_of d s = d + offset_of (adler32_Checksum s) d"
    and "d \<le> period_of d s" and "4 * period_of d s < 5 * d"
proof -
  let ?o = "offset_of (adler32_Checksum s) d"
  have o0: "0 \<le> ?o" using assms(1) by (simp add: offset_of_pos)
  have o4: "4 * ?o < d"
    using offset_of_abs_bound[OF adler32_Checksum_bound, of d s] assms(1) o0 by simp
  have "is_int64 (d + ?o)" using o0 o4 assms by (simp add: is_int64_def)
  then show p: "period_of d s = d + ?o" by (simp add: period_of_def wrap64_id)
  show "d \<le> period_of d s" using o0 by (simp add: p)
  show "4 * period_of d s < 5 * d" using o4 by (simp add: p)
qed

lemma quantize_eq:
  "d \<noteq> 0 \<Longrightarrow> quantize t d s =
     (if period_of d s = 0 then Inl DivideByZero else Inr (wrap64 (t sdiv period_of d s)))"
  by (simp add: quantize_def period_of_def Let_def)

lemma adler32_a: "adler32_Checksum ''a'' = 6422626"
  by (simp add: adler32_Checksum_def adler32_step_def adler32_mod_def Let_def)

lemma adler32_ba: "adler32_Checksum ''ba'' = 19333316"
  by (simp add: adler32_Checksum_def adler32_step_def adler32_mod_def Let_def)


lemma period_of_10s_ba: "period_of 10000000000 ''ba'' = 10011253471"
  by (simp add: period_of_def offset_of_def adler32_ba round53_def Let_def compute_bitlen
      wrap64_def sdiv_pos_divisor)


lemma period_of_max_a: "period_of 9223372036854775807 ''a'' = - 9219923915776720897"
  by (simp add: period_of_def offset_of_def adler32_a round53_def Let_def compute_bitlen
      wrap64_def sdiv_pos_divisor)




text \<open>
  C5 (as stated) fails. With the largest window, \<open>2^63 - 1\<close> nanoseconds, the
  divisor wraps around to a negative number and \<open>quantize\<close> decreases from 0 to -1
  between the times 0 and \<open>2^63 - 1\<close>.
\<close>

theorem quantize_monotone_counterexample:
  "(0::int) < 9223372036854775807 \<and> is_int64 9223372036854775807
   \<and> (0::int) \<le> 9223372036854775807
   \<and> quantize 0 9223372036854775807 ''a'' = Inr 0
   \<and> quantize 9223372036854775807 9223372036854775807 ''a'' = Inr (- 1)"
  by (simp add: quantize_eq period_of_max_a is_int64_def signed_divide_int_def wrap64_def)

text \<open>
  C5 (amended). For a fixed path and a window \<open>d > 0\<close> with \<open>1.25 * d\<close> within
  int64, \<open>quantize\<close> returns the truncated quotient of the time by the effective
  period and is non-decreasing in the time; for the window 0 it returns 0 at every
  time.
\<close>

theorem quantize_monotone:
  "(0 < d \<and> 5 * d \<le> 2 ^ 65 \<and> is_int64 t1 \<and> is_int64 t2 \<and> t1 \<le> t2 \<longrightarrow>
      quantize t1 d s = Inr (t1 sdiv period_of d s)
      \<and> quantize t2 d s = Inr (t2 sdiv period_of d s)
      \<and> t1 sdiv period_of d s \<le> t2 sdiv period_of d s)
   \<and> quantize t 0 s = Inr 0"
proof (intro conjI impI)
  show "quantize t 0 s = Inr 0" by (simp add: quantize_def)
next
  assume a: "0 < d \<and> 5 * d \<le> 2 ^ 65 \<and> is_int64 t1 \<and> is_int64 t2 \<and> t1 \<le> t2"
  then have d: "0 < d" "5 * d \<le> 2 ^ 65" by simp_all
  from period_of_no_wrap(2)[OF d, of s] d(1) have p: "0 < period_of d s" by linarith
  have q: "quantize t' d s = Inr (t' sdiv period_of d s)" if "is_int64 t'" for t'
  proof -
    have "min t' 0 \<le> t' sdiv period_of d s \<and> t' sdiv period_of d s \<le> max t' 0"
      using p by (rule sdiv_between)
    with that have "is_int64 (t' sdiv period_of d s)" by (auto simp: is_int64_def)
    then show ?thesis using p d(1) by (simp add: quantize_eq wrap64_id)
  qed
  from a show "quantize t1 d s = Inr (t1 sdiv period_of d s)" by (simp add: q)
  from a show "quantize t2 d s = Inr (t2 sdiv period_of d s)" by (simp add: q)
  from a show "t1 sdiv period_of d s \<le> t2 sdiv period_of d s"
    using p by (simp add: sdiv_mono_pos)
qed

theorem quantize_monotone_witness:
  "(0::int) < 10000000000 \<and> (5::int) * 10000000000 \<le> 2 ^ 65
   \<and> is_int64 1700000000000000000 \<and> is_int64 1700000020000000000
   \<and> (1700000000000000000::int) \<le> 1700000020000000000
   \<and> quantize 1700000000000000000 10000000000 ''ba'' = Inr 169808906
   \<and> quantize 1700000020000000000 10000000000 ''ba'' = Inr 169808908
   \<and> quantize 1700000000000000000 0 ''ba'' = Inr 0"
proof -
  have h: "(0::int) < 10000000000 \<and> (5::int) * 10000000000 \<le> 2 ^ 65
     \<and> is_int64 1700000000000000000 \<and> is_int64 1700000020000000000
     \<and> (1700000000000000000::int) \<le> 1700000020000000000"
    by (simp add: is_int64_def)
  from quantize_monotone[of 10000000000 1700000000000000000 1700000020000000000 "''ba''"
      1700000000000000000] h
  show ?thesis by (simp add: period_of_10s_ba sdiv_pos_divisor)
qed

text \<open>
  C10. For every nonzero int64 duration, every time and every path, the offset is
  smaller in magnitude than the duration, the divisor of \<open>quantize\<close> is not zero (also
  where the sum wraps around), and \<open>quantize\<close> returns the quotient: it never divides
  by zero.
\<close>

theorem quantize_divisor_nonzero:
  assumes "is_int64 d" and "d \<noteq> 0"
  shows "\<bar>offset_of (adler32_Checksum s) d\<bar> < \<bar>d\<bar>
         \<and> period_of d s \<noteq> 0
         \<and> quantize t d s = Inr (wrap64 (t sdiv period_of d s))"
proof -
  let ?o = "offset_of (adler32_Checksum s) d"
  have o4: "4 * \<bar>?o\<bar> < \<bar>d\<bar>"
    by (rule offset_of_abs_bound[OF adler32_Checksum_bound assms(2)])
  then have o: "\<bar>?o\<bar> < \<bar>d\<bar>" by linarith
  have dr: "\<bar>d\<bar> \<le> 2 ^ 63" using assms(1) by (auto simp: is_int64_def)
  have "d + ?o \<noteq> 0" using o by linarith
  moreover have "- (2 ^ 64) < d + ?o" "d + ?o < 2 ^ 64" using o4 dr by simp_all
  ultimately have p: "period_of d s \<noteq> 0"
    unfolding period_of_def by (intro wrap64_nonzero)
  with o assms(2) show ?thesis by (simp add: quantize_eq)
qed

theorem quantize_divisor_nonzero_witness:
  "is_int64 (- 10000000000) \<and> (- 10000000000::int) \<noteq> 0
   \<and> \<bar>offset_of (adler32_Checksum ''ba'') (- 10000000000)\<bar> < \<bar>- 10000000000\<bar>
   \<and> period_of (- 10000000000) ''ba'' = - 10011253471
   \<and> quantize 1700000000000000000 (- 10000000000) ''ba'' = Inr (- 169808906)"
proof -
  have h: "is_int64 (- 10000000000)" "(- 10000000000::int) \<noteq> 0" by (simp_all add: is_int64_def)
  have p: "period_of (- 10000000000) ''ba'' = - 10011253471"
    by (simp add: period_of_def offset_of_def adler32_ba round53_def Let_def compute_bitlen
        wrap64_def signed_divide_int_def)
  from quantize_divisor_nonzero[OF h, of "''ba''" 1700000000000000000] h p show ?thesis
    by (simp add: signed_divide_int_def wrap64_def)
qed

subsection \<open>The cache key\<close>

lemma upperhex_digits:
  "list_all (\<lambda>n. ishex (upperhex ! n) \<and> unhex (upperhex ! n) = n
                 \<and> upperhex ! n \<noteq> CHR ''&'' \<and> upperhex ! n \<noteq> CHR '';''
                 \<and> upperhex ! n \<noteq> CHR ''='') [0..<16]"
  by (simp add: upperhex_def ishex_def unhex_def upt_rec)

lemma upperhex_nth:
  assumes "n < 16"
  shows "ishex (upperhex ! n)" and "unhex (upperhex ! n) = n"
    and "upperhex ! n \<noteq> CHR ''&''" and "upperhex ! n \<noteq> CHR '';''" and "upperhex ! n \<noteq> CHR ''=''"
  using upperhex_digits assms by (simp_all add: list_all_iff)

lemma of_char_lt_256: "of_char c < (256::nat)"
proof -
  have "of_char (char_of (of_char c :: nat)) = (of_char c :: nat)" by (simp only: char_of_char)
  then have "(of_char c :: nat) mod 256 = of_char c" by (simp only: of_char_of)
  then show ?thesis by (metis mod_less_divisor zero_less_numeral)
qed

lemma hex_roundtrip:
  "char_of (unhex (upperhex ! (of_char c div 16)) * 16 + unhex (upperhex ! (of_char c mod 16))) = c"
proof -
  have a: "(of_char c :: nat) div 16 < 16" using of_char_lt_256[of c] by presburger
  have b: "(of_char c :: nat) mod 16 < 16" by simp
  have "unhex (upperhex ! (of_char c div 16)) * 16 + unhex (upperhex ! (of_char c mod 16))
        = (of_char c :: nat)"
    by (simp add: upperhex_nth(2)[OF a] upperhex_nth(2)[OF b])
  then show ?thesis by simp
qed

lemma shouldEscape_special:
  "shouldEscape CHR ''&''" "shouldEscape CHR '';''" "shouldEscape CHR ''=''"
  "shouldEscape CHR ''%''" "shouldEscape CHR ''+''" "shouldEscape CHR '' ''"
  by (simp_all add: shouldEscape_def)

lemma QueryEscape_chars:
  "c \<in> set (QueryEscape s) \<Longrightarrow> c \<noteq> CHR ''&'' \<and> c \<noteq> CHR '';'' \<and> c \<noteq> CHR ''=''"
proof (induction s)
  case Nil
  then show ?case by simp
next
  case (Cons x xs)
  have a: "(of_char x :: nat) div 16 < 16" using of_char_lt_256[of x] by presburger
  have b: "(of_char x :: nat) mod 16 < 16" by simp
  note h = upperhex_nth(3-5)[OF a] upperhex_nth(3-5)[OF b]
  from Cons show ?case
    using h shouldEscape_special by (auto split: if_splits)
qed

lemma QueryUnescape_QueryEscape: "QueryUnescape (QueryEscape s) = Inr s"
proof (induction s)
  case Nil
  then show ?case by simp
next
  case (Cons x xs)
  have a: "(of_char x :: nat) div 16 < 16" using of_char_lt_256[of x] by presburger
  have b: "(of_char x :: nat) mod 16 < 16" by simp
  show ?case
  proof (cases "x = CHR '' ''")
    case True
    with Cons show ?thesis by simp
  next
    case sp: False
    show ?thesis
    proof (cases "shouldEscape x")
      case True
      with sp Cons show ?thesis
        by (simp add: upperhex_nth(1)[OF a] upperhex_nth(1)[OF b] hex_roundtrip)
    next
      case False
      then have "x \<noteq> CHR ''%''" "x \<noteq> CHR ''+''" using shouldEscape_special by auto
      with sp False Cons show ?thesis by simp
    qed
  qed
qed

lemma QueryEscape_plain: "\<forall>c \<in> set s. \<not> shouldEscape c \<Longrightarrow> QueryEscape s = s"
proof (induction s)
  case Nil
  then show ?case by simp
next
  case (Cons x xs)
  then have "\<not> shouldEscape x" by simp
  then have "x \<noteq> CHR '' ''" using shouldEscape_special by auto
  with Cons show ?case by simp
qed

lemma digit_char_plain: "n < 10 \<Longrightarrow> \<not> shouldEscape (digit_char n)"
proof -
  assume n: "n < 10"
  have "of_char (digit_char n) = 48 + n"
    using n by (simp add: digit_char_def)
  then have "CHR ''0'' \<le> digit_char n \<and> digit_char n \<le> CHR ''9''"
    using n by (simp add: less_eq_char_def)
  then show ?thesis by (simp only: shouldEscape_def if_True simp_thms)
qed

lemma formatNat_plain: "\<forall>c \<in> set (formatNat n). \<not> shouldEscape c"
proof (induction n rule: formatNat.induct)
  case (1 n)
  show ?case
  proof (cases "n < 10")
    case True
    then show ?thesis by (subst formatNat.simps) (simp add: digit_char_plain)
  next
    case False
    with 1 show ?thesis by (subst formatNat.simps) (simp add: digit_char_plain)
  qed
qed

lemma FormatInt_plain: "\<forall>c \<in> set (FormatInt i). \<not> shouldEscape c"
proof (cases "i < 0")
  case True
  have "\<not> shouldEscape CHR ''-''" by (simp add: shouldEscape_def)
  with True formatNat_plain[of "nat (- i)"] show ?thesis by (simp add: FormatInt_def)
next
  case False
  with formatNat_plain[of "nat i"] show ?thesis by (simp add: FormatInt_def)
qed

lemma QueryEscape_FormatInt: "QueryEscape (FormatInt i) = FormatInt i"
  by (rule QueryEscape_plain[OF FormatInt_plain])

lemma Cut_found: "sep \<notin> set a \<Longrightarrow> Cut sep (a @ sep # b) = (a, b)"
  by (induction a) (auto simp: Cut_def)

lemma Cut_not_found: "sep \<notin> set a \<Longrightarrow> Cut sep a = (a, [])"
  by (induction a) (auto simp: Cut_def)

lemma parseQuery_Nil: "parseQuery m err [] = (m, err)"
  by (subst parseQuery.simps) simp

lemma parseQuery_setting:
  assumes "Cut CHR ''&'' query = (seg, rest)" and "seg \<noteq> []" and "CHR '';'' \<notin> set seg"
    and "Cut CHR ''='' seg = (k, v)"
    and "QueryUnescape k = Inr key" and "QueryUnescape v = Inr val"
  shows "parseQuery m err query = parseQuery (Values_Add m key val) err rest"
proof -
  from assms(1,2) have "query \<noteq> []" by (auto simp: Cut_def)
  with assms show ?thesis by (subst parseQuery.simps) simp
qed

lemma openKey_eq:
  "openKey t name = ''path='' @ QueryEscape name @ ''&t='' @ FormatInt t"
  by (simp add: openKey_def Values_Encode_def Values_Set_def QueryEscape_FormatInt shouldEscape_def)

lemma ParseQuery_openKey:
  "ParseQuery (openKey t name)
     = (Values_Add (Values_Add [] ''path'' name) ''t'' (FormatInt t), None)"
proof -
  let ?E = "QueryEscape name" and ?F = "FormatInt t"
  have amp_E: "CHR ''&'' \<notin> set (''path='' @ ?E)" and semi_E: "CHR '';'' \<notin> set (''path='' @ ?E)"
    and eq_E: "CHR ''='' \<notin> set ?E"
    using QueryEscape_chars[of _ name] by auto
  have F_chars: "CHR ''&'' \<notin> set (''t='' @ ?F)" "CHR '';'' \<notin> set (''t='' @ ?F)" "CHR ''='' \<notin> set ?F"
    using FormatInt_plain[of t] shouldEscape_special by auto
  have c1: "Cut CHR ''&'' ((''path='' @ ?E) @ CHR ''&'' # (''t='' @ ?F)) = (''path='' @ ?E, ''t='' @ ?F)"
    by (rule Cut_found[OF amp_E])
  have c2: "Cut CHR ''='' (''path'' @ CHR ''='' # ?E) = (''path'', ?E)"
    by (rule Cut_found) simp
  have c3: "Cut CHR ''&'' (''t='' @ ?F) = (''t='' @ ?F, [])"
    by (rule Cut_not_found[OF F_chars(1)])
  have c4: "Cut CHR ''='' (''t'' @ CHR ''='' # ?F) = (''t'', ?F)"
    by (rule Cut_found) simp
  have uF: "QueryUnescape ?F = Inr ?F"
    using QueryUnescape_QueryEscape[of ?F] by (simp only: QueryEscape_FormatInt)
  have p1: "parseQuery [] None ((''path='' @ ?E) @ CHR ''&'' # (''t='' @ ?F))
            = parseQuery (Values_Add [] ''path'' name) None (''t='' @ ?F)"
    using c2 semi_E
    by (intro parseQuery_setting[OF c1, where k = "''path''" and v = ?E])
       (simp_all add: QueryUnescape_QueryEscape)
  have p2: "parseQuery (Values_Add [] ''path'' name) None (''t='' @ ?F)
            = parseQuery (Values_Add (Values_Add [] ''path'' name) ''t'' ?F) None []"
    using c4 F_chars(2)
    by (intro parseQuery_setting[OF c3, where k = "''t''" and v = ?F])
       (simp_all add: uF)
  have key: "openKey t name = (''path='' @ ?E) @ CHR ''&'' # (''t='' @ ?F)"
    by (simp add: openKey_eq)
  show ?thesis
    unfolding ParseQuery_def key p1 p2 by (rule parseQuery_Nil)
qed

lemma Values_Get_path:
  "Values_Get (Values_Add (Values_Add [] ''path'' name) ''t'' v) ''path'' = name"
  by (simp add: Values_Get_def Values_lookup_def Values_Add_def)


subsection \<open>The record codec\<close>

lemma feed_length: "length (snd (feed dec bs)) \<le> length bs"
proof (induction dec arbitrary: bs)
  case (Done x)
  show ?case by simp
next
  case (Fail e)
  show ?case by simp
next
  case (NeedRead k f)
  show ?case
  proof (cases "bs = []")
    case True
    have "length (snd (feed (f ([], Some EOF)) [])) \<le> length ([] :: byte list)"
      by (rule NeedRead) simp
    with True show ?thesis by simp
  next
    case False
    have "length (snd (feed (f (take k bs, None)) (drop k bs))) \<le> length (drop k bs)"
      by (rule NeedRead) simp
    with False show ?thesis by simp
  qed
next
  case (NeedReadByte f)
  show ?case
  proof (cases bs)
    case Nil
    have "length (snd (feed (f (0, Some EOF)) [])) \<le> length ([] :: byte list)"
      by (rule NeedReadByte) simp
    with Nil show ?thesis by simp
  next
    case (Cons b bs')
    have "length (snd (feed (f (b, None)) bs')) \<le> length bs'"
      by (rule NeedReadByte) simp
    with Cons show ?thesis by simp
  qed
qed

lemma countingReader_Read_at:
  assumes "i \<le> length buf"
  shows "countingReader_Read \<lparr>Reader = \<lparr>rs = buf, ri = i\<rparr>, count = c\<rparr> k =
           (if drop i buf = [] then (([], Some EOF), \<lparr>Reader = \<lparr>rs = buf, ri = i\<rparr>, count = c\<rparr>)
            else ((take k (drop i buf), None),
                  \<lparr>Reader = \<lparr>rs = buf, ri = i + length (take k (drop i buf))\<rparr>,
                   count = c + int (length (take k (drop i buf)))\<rparr>))"
  using assms by (simp add: countingReader_Read_def bytesReader_Read_def Let_def)

lemma drop_take_len: "drop (i + length (take k (drop i buf))) buf = drop k (drop i buf)"
proof (cases "k \<le> length buf - i")
  case True
  then show ?thesis by (simp add: min_def add.commute)
next
  case False
  then show ?thesis by (simp add: min_def)
qed

lemma Decode_feed:
  assumes "i \<le> length buf"
  shows "Decode dec \<lparr>Reader = \<lparr>rs = buf, ri = i\<rparr>, count = c\<rparr> =
           (fst (feed dec (drop i buf)),
            \<lparr>Reader = \<lparr>rs = buf, ri = length buf - length (snd (feed dec (drop i buf)))\<rparr>,
             count = c + (int (length buf) - int (length (snd (feed dec (drop i buf)))) - int i)\<rparr>)"
  using assms
proof (induction dec arbitrary: i c)
  case (Done x)
  then show ?case by simp
next
  case (Fail e)
  then show ?case by simp
next
  case (NeedRead k f)
  show ?case
  proof (cases "drop i buf = []")
    case True
    have "Decode (f ([], Some EOF)) \<lparr>Reader = \<lparr>rs = buf, ri = i\<rparr>, count = c\<rparr> =
           (fst (feed (f ([], Some EOF)) (drop i buf)),
            \<lparr>Reader = \<lparr>rs = buf, ri = length buf - length (snd (feed (f ([], Some EOF)) (drop i buf)))\<rparr>,
             count = c + (int (length buf) - int (length (snd (feed (f ([], Some EOF)) (drop i buf)))) - int i)\<rparr>)"
      by (rule NeedRead.IH) (simp_all add: NeedRead.prems)
    with True show ?thesis
      by (simp add: countingReader_Read_at[OF NeedRead.prems] Let_def)
  next
    case False
    let ?bs = "take k (drop i buf)"
    let ?i' = "i + length ?bs"
    have i': "?i' \<le> length buf" using NeedRead.prems by (auto simp: min_def)
    have d: "drop ?i' buf = drop k (drop i buf)" by (rule drop_take_len)
    have "Decode (f (?bs, None)) \<lparr>Reader = \<lparr>rs = buf, ri = ?i'\<rparr>, count = c + int (length ?bs)\<rparr> =
           (fst (feed (f (?bs, None)) (drop ?i' buf)),
            \<lparr>Reader = \<lparr>rs = buf, ri = length buf - length (snd (feed (f (?bs, None)) (drop ?i' buf)))\<rparr>,
             count = c + int (length ?bs) + (int (length buf) - int (length (snd (feed (f (?bs, None)) (drop ?i' buf)))) - int ?i')\<rparr>)"
      by (rule NeedRead.IH) (use i' in simp_all)
    with False show ?thesis
      unfolding d by (simp add: countingReader_Read_at[OF NeedRead.prems] Let_def)
  qed
next
  case (NeedReadByte f)
  show ?case
  proof (cases "drop i buf")
    case Nil
    have "Decode (f (0, Some EOF)) \<lparr>Reader = \<lparr>rs = buf, ri = i\<rparr>, count = c\<rparr> =
           (fst (feed (f (0, Some EOF)) (drop i buf)),
            \<lparr>Reader = \<lparr>rs = buf, ri = length buf - length (snd (feed (f (0, Some EOF)) (drop i buf)))\<rparr>,
             count = c + (int (length buf) - int (length (snd (feed (f (0, Some EOF)) (drop i buf)))) - int i)\<rparr>)"
      by (rule NeedReadByte.IH) (simp_all add: NeedReadByte.prems)
    with Nil show ?thesis
      by (simp add: countingReader_ReadByte_def countingReader_Read_at[OF NeedReadByte.prems] Let_def)
  next
    case (Cons b bs')
    then have lt: "i < length buf" using NeedReadByte.prems by (cases "i = length buf") auto
    have d: "drop (Suc i) buf = bs'" using Cons by (metis drop_Suc tl_drop list.sel(3))
    have "Decode (f (b, None)) \<lparr>Reader = \<lparr>rs = buf, ri = Suc i\<rparr>, count = c + 1\<rparr> =
           (fst (feed (f (b, None)) (drop (Suc i) buf)),
            \<lparr>Reader = \<lparr>rs = buf, ri = length buf - length (snd (feed (f (b, None)) (drop (Suc i) buf)))\<rparr>,
             count = c + 1 + (int (length buf) - int (length (snd (feed (f (b, None)) (drop (Suc i) buf)))) - int (Suc i))\<rparr>)"
      by (rule NeedReadByte.IH) (use lt in simp_all)
    with Cons show ?thesis
      unfolding d
      by (simp add: countingReader_ReadByte_def countingReader_Read_at[OF NeedReadByte.prems] Let_def)
  qed
qed

lemma decodeEntry_feed:
  assumes "feed dec buf = (Inr v, rest)"
  shows "decodeEntry name dec buf =
           Inr \<lparr>ReadSeeker = Some \<lparr>rs = drop (length buf - length rest) buf, ri = 0\<rparr>,
                FI = fst v, pos = 0, Dirs = snd v\<rparr>"
    and "Count (snd (Decode dec \<lparr>Reader = ByteView_Reader buf, count = 0\<rparr>))
           = int (length buf) - int (length rest)"
proof -
  have le: "length rest \<le> length buf" using feed_length[of dec buf] assms by simp
  have D: "Decode dec \<lparr>Reader = \<lparr>rs = buf, ri = 0\<rparr>, count = 0\<rparr> =
             (Inr v, \<lparr>Reader = \<lparr>rs = buf, ri = length buf - length rest\<rparr>,
                      count = int (length buf) - int (length rest)\<rparr>)"
    using Decode_feed[of 0 buf dec 0] assms by simp
  show "Count (snd (Decode dec \<lparr>Reader = ByteView_Reader buf, count = 0\<rparr>))
           = int (length buf) - int (length rest)"
    by (simp add: ByteView_Reader_def D Count_def)
  have "nat (int (length buf) - int (length rest)) = length buf - length rest" by simp
  then show "decodeEntry name dec buf =
           Inr \<lparr>ReadSeeker = Some \<lparr>rs = drop (length buf - length rest) buf, ri = 0\<rparr>,
                FI = fst v, pos = 0, Dirs = snd v\<rparr>"
    using le
    by (simp add: decodeEntry_def ByteView_Reader_def D Count_def SliceFrom_def zeroFile_def)
qed

lemma decodeEntry_pos: "decodeEntry name dec buf = Inr f \<Longrightarrow> pos f = 0"
  by (auto simp: decodeEntry_def Let_def zeroFile_def split: prod.splits sum.splits)

lemma feed_exampleDecoder:
  "feed exampleDecoder (0x2A # 0x01 # rest) = (Inr exampleDirValue, rest)"
  "feed exampleDecoder (0x2A # 0x02 # rest) = (Inr exampleFileValue, rest)"
  by (cases rest; simp add: exampleDecoder_def)+

text \<open>
  C1. For every metadata record, children list and content: when the gob encoder
  turns the metadata and children into the header bytes and the gob decoder, given
  these bytes followed by the content, returns the metadata and children and leaves
  the content unread, then the loader's buffer is the header followed by the content,
  decoding it in \<open>Open\<close> gives an entry with the same metadata, the same children in
  the same order, cursor 0 and a content view that is exactly the content, and the
  count of the counting reader is the length of the header.
\<close>

theorem codec_roundtrip:
  assumes "genc (fi, dirs) = Inr hb"
    and "feed dec (hb @ content) = (Inr (fi, dirs), content)"
  shows "encodeEntry genc (zeroFile\<lparr>FI := fi, Dirs := dirs\<rparr>) content = Inr (hb @ content)
         \<and> decodeEntry name dec (hb @ content)
             = Inr \<lparr>ReadSeeker = Some \<lparr>rs = content, ri = 0\<rparr>, FI = fi, pos = 0, Dirs = dirs\<rparr>
         \<and> Count (snd (Decode dec \<lparr>Reader = ByteView_Reader (hb @ content), count = 0\<rparr>))
             = int (length hb)"
  using assms(1) decodeEntry_feed(1)[OF assms(2), of name] decodeEntry_feed(2)[OF assms(2)]
  by (simp add: encodeEntry_def zeroFile_def)

theorem codec_roundtrip_witness:
  "exampleEncoder exampleFileValue = Inr [0x2A, 0x02]
   \<and> feed exampleDecoder ([0x2A, 0x02] @ [0x68, 0x69]) = (Inr exampleFileValue, [0x68, 0x69])
   \<and> encodeEntry exampleEncoder
        (zeroFile\<lparr>FI := \<lparr>Nm = ''a.txt'', Sz = 2, Md = 0x1A4, Mt = 1\<rparr>, Dirs := []\<rparr>) [0x68, 0x69]
        = Inr [0x2A, 0x02, 0x68, 0x69]
   \<and> decodeEntry ''a.txt'' exampleDecoder [0x2A, 0x02, 0x68, 0x69]
        = Inr \<lparr>ReadSeeker = Some \<lparr>rs = [0x68, 0x69], ri = 0\<rparr>,
               FI = \<lparr>Nm = ''a.txt'', Sz = 2, Md = 0x1A4, Mt = 1\<rparr>, pos = 0, Dirs = []\<rparr>
   \<and> Count (snd (Decode exampleDecoder
                    \<lparr>Reader = ByteView_Reader [0x2A, 0x02, 0x68, 0x69], count = 0\<rparr>)) = 2"
proof -
  have e: "exampleEncoder (\<lparr>Nm = ''a.txt'', Sz = 2, Md = 0x1A4, Mt = 1\<rparr>, []) = Inr [0x2A, 0x02]"
    by (simp add: exampleEncoder_def exampleFileValue_def exampleDirValue_def exampleDir_def)
  have g: "feed exampleDecoder ([0x2A, 0x02] @ [0x68, 0x69])
             = (Inr (\<lparr>Nm = ''a.txt'', Sz = 2, Md = 0x1A4, Mt = 1\<rparr>, []), [0x68, 0x69])"
    using feed_exampleDecoder(2)[of "[0x68, 0x69]"] by (simp add: exampleFileValue_def)
  from codec_roundtrip[where genc = exampleEncoder and dec = exampleDecoder
      and fi = "\<lparr>Nm = ''a.txt'', Sz = 2, Md = 0x1A4, Mt = 1\<rparr>" and dirs = "[]"
      and hb = "[0x2A, 0x02]" and content = "[0x68, 0x69]" and name = "''a.txt''", OF e g] e g
  show ?thesis
    by (simp add: exampleFileValue_def)
qed

text \<open>
  C7. Decoding does not compare the length of the content with the size in the
  metadata: for every buffer made of a header that the gob decoder accepts, followed
  by a tail of any length, decoding succeeds and the content view of the entry is
  exactly the tail; no relation between \<open>Sz\<close> and the length of the tail is required.
\<close>

theorem decode_ignores_size:
  assumes "feed dec (hb @ rest) = (Inr (fi, dirs), rest)"
  shows "decodeEntry name dec (hb @ rest)
           = Inr \<lparr>ReadSeeker = Some \<lparr>rs = rest, ri = 0\<rparr>, FI = fi, pos = 0, Dirs = dirs\<rparr>"
  using decodeEntry_feed(1)[OF assms, of name] by simp

theorem decode_ignores_size_witness:
  "feed exampleDecoder ([0x2A, 0x02] @ [1, 2, 3, 4, 5])
     = (Inr (\<lparr>Nm = ''a.txt'', Sz = 2, Md = 0x1A4, Mt = 1\<rparr>, []), [1, 2, 3, 4, 5])
   \<and> Sz \<lparr>Nm = ''a.txt'', Sz = 2, Md = 0x1A4, Mt = 1\<rparr> \<noteq> int (length [1, 2, 3, 4, 5 :: byte])
   \<and> decodeEntry ''a.txt'' exampleDecoder [0x2A, 0x02, 1, 2, 3, 4, 5]
        = Inr \<lparr>ReadSeeker = Some \<lparr>rs = [1, 2, 3, 4, 5], ri = 0\<rparr>,
               FI = \<lparr>Nm = ''a.txt'', Sz = 2, Md = 0x1A4, Mt = 1\<rparr>, pos = 0, Dirs = []\<rparr>"
proof -
  have g: "feed exampleDecoder ([0x2A, 0x02] @ [1, 2, 3, 4, 5])
     = (Inr (\<lparr>Nm = ''a.txt'', Sz = 2, Md = 0x1A4, Mt = 1\<rparr>, []), [1, 2, 3, 4, 5])"
    using feed_exampleDecoder(2)[of "[1, 2, 3, 4, 5]"] by (simp add: exampleFileValue_def)
  from decode_ignores_size[where dec = exampleDecoder
      and fi = "\<lparr>Nm = ''a.txt'', Sz = 2, Md = 0x1A4, Mt = 1\<rparr>" and dirs = "[]"
      and hb = "[0x2A, 0x02]" and rest = "[1, 2, 3, 4, 5]" and name = "''a.txt''", OF g] g
  show ?thesis by simp
qed

text \<open>
  C9. An entry decoded by \<open>Open\<close> has its cursor at 0, and after every sequence of
  \<open>ReadDir\<close> calls, with any arguments, the cursor satisfies \<open>0 \<le> pos \<le> len(Dirs)\<close>.
\<close>

theorem cursor_within_children:
  assumes "decodeEntry name dec buf = Inr f"
  shows "pos f = 0
         \<and> 0 \<le> pos (ReadDirs f ns) \<and> pos (ReadDirs f ns) \<le> int (length (Dirs (ReadDirs f ns)))"
proof -
  have p: "pos f = 0" using assms by (rule decodeEntry_pos)
  then have "dirInv f" by (simp add: dirInv_def)
  then have "dirInv (ReadDirs f ns)" by (rule ReadDirs_dirInv)
  with p show ?thesis by (simp add: dirInv_def)
qed

theorem cursor_within_children_witness:
  "decodeEntry ''.'' exampleDecoder [0x2A, 0x01] = Inr exampleDir
   \<and> pos exampleDir = 0
   \<and> 0 \<le> pos (ReadDirs exampleDir [2, 0, -1, 5, 1])
   \<and> pos (ReadDirs exampleDir [2, 0, -1, 5, 1])
       \<le> int (length (Dirs (ReadDirs exampleDir [2, 0, -1, 5, 1])))"
proof -
  have d: "decodeEntry ''.'' exampleDecoder [0x2A, 0x01] = Inr exampleDir"
    using decodeEntry_feed(1)[OF feed_exampleDecoder(1)[of "[]"], of "''.''"]
    by (simp add: exampleDirValue_def exampleDir_def)
  from cursor_within_children[OF d, of "[2, 0, -1, 5, 1]"] d show ?thesis by simp
qed

subsection \<open>The loader\<close>

lemma appendEntries_stat:
  "appendEntries False ds entries = ds @ survivingChildren entries"
proof (induction entries arbitrary: ds)
  case Nil
  show ?case by (simp add: survivingChildren_def List.map_filter_simps)
next
  case (Cons e es)
  show ?case
  proof (cases "eInfo e")
    case (Inl err)
    then show ?thesis
      using Cons[of ds] by (simp add: survivingChildren_def List.map_filter_simps)
  next
    case (Inr fi)
    have eta: "\<lparr>Nm = Nm fi, Sz = Sz fi, Md = Md fi, Mt = Mt fi\<rparr> = fi" by simp
    from Inr show ?thesis
      using Cons[of "ds @ [\<lparr>dFI = fi\<rparr>]"]
      by (simp add: survivingChildren_def List.map_filter_simps eta)
  qed
qed

lemma getter_directory:
  assumes "ParseQuery key = (q, None)" and "innerFS (Values_Get q ''path'') = Inr f"
    and "fStat f = Inr info" and "IsDir info" and "fReadDir f = Some (Inr entries)"
  shows "getter innerFS False genc key
           = encodeEntry genc (zeroFile\<lparr>FI := info, Dirs := survivingChildren entries\<rparr>) []"
proof -
  have eta: "\<lparr>Nm = Nm info, Sz = Sz info, Md = Md info, Mt = Mt info\<rparr> = info" by simp
  from assms show ?thesis
    by (simp add: getter_def Let_def appendEntries_stat eta)
qed

text \<open>
  C8. With per-child metadata collection enabled (\<open>noStat\<close> unset): when the key
  parses, the directory opens, its \<open>Stat\<close> and its enumeration succeed and the encoder
  accepts the result, the load succeeds whatever the \<open>Info\<close> calls of the children
  return; the encoded listing holds exactly the children whose \<open>Info\<close> succeeded, in
  enumeration order, and a child whose \<open>Info\<close> failed is left out.
\<close>

theorem per_child_failure_skipped:
  assumes "ParseQuery key = (q, None)" and "innerFS (Values_Get q ''path'') = Inr f"
    and "fStat f = Inr info" and "IsDir info" and "fReadDir f = Some (Inr entries)"
    and "genc (info, survivingChildren entries) = Inr hb"
  shows "getter innerFS False genc key = Inr hb
         \<and> appendEntries False [] entries = survivingChildren entries
         \<and> survivingChildren entries
             = map (\<lambda>e. \<lparr>dFI = projr (eInfo e)\<rparr>) (filter (\<lambda>e. \<not> isl (eInfo e)) entries)"
proof -
  have m: "survivingChildren es
             = map (\<lambda>e. \<lparr>dFI = projr (eInfo e)\<rparr>) (filter (\<lambda>e. \<not> isl (eInfo e)) es)" for es
  proof (induction es)
    case Nil
    show ?case by (simp add: survivingChildren_def List.map_filter_simps)
  next
    case (Cons e es)
    then show ?case
      by (cases "eInfo e") (simp_all add: survivingChildren_def List.map_filter_simps)
  qed
  have "getter innerFS False genc key = Inr hb"
    using getter_directory[where innerFS = innerFS and key = key and q = q and f = f
        and info = info and entries = entries and genc = genc, OF assms(1-5)] assms(6)
    by (simp add: encodeEntry_def zeroFile_def)
  moreover have "appendEntries False [] entries = survivingChildren entries"
    using appendEntries_stat[of "[]" entries] by simp
  ultimately show ?thesis using m[of entries] by simp
qed

theorem per_child_failure_skipped_witness:
  "ParseQuery (openKey 0 ''.'') = (Values_Add (Values_Add [] ''path'' ''.'') ''t'' (FormatInt 0), None)
   \<and> exampleInnerFS ''.''
        = Inr \<lparr>fStat = Inr (FI exampleDir), fReadDir = Some (Inr exampleEntries),
               fReadAll = Inl (Upstream ''read .: is a directory'')\<rparr>
   \<and> IsDir (FI exampleDir)
   \<and> survivingChildren exampleEntries = [childA, childB, childC]
   \<and> exampleEncoder (FI exampleDir, [childA, childB, childC]) = Inr [0x2A, 0x01]
   \<and> getter exampleInnerFS False exampleEncoder (openKey 0 ''.'') = Inr [0x2A, 0x01]"
proof -
  let ?f = "\<lparr>fStat = Inr (FI exampleDir), fReadDir = Some (Inr exampleEntries),
              fReadAll = Inl (Upstream ''read .: is a directory'')\<rparr>"
  have k: "ParseQuery (openKey 0 ''.'')
             = (Values_Add (Values_Add [] ''path'' ''.'') ''t'' (FormatInt 0), None)"
    by (rule ParseQuery_openKey)
  have o: "exampleInnerFS (Values_Get (Values_Add (Values_Add [] ''path'' ''.'') ''t'' (FormatInt 0)) ''path'')
             = Inr ?f"
    by (simp add: Values_Get_path exampleInnerFS_def)
  have s: "fStat ?f = Inr (FI exampleDir)" and r: "fReadDir ?f = Some (Inr exampleEntries)"
    by simp_all
  have sc: "survivingChildren exampleEntries = [childA, childB, childC]"
    by (simp add: survivingChildren_def exampleEntries_def List.map_filter_simps)
  have e: "exampleEncoder (FI exampleDir, survivingChildren exampleEntries) = Inr [0x2A, 0x01]"
    by (simp add: sc exampleEncoder_def exampleDirValue_def exampleDir_def)
  from per_child_failure_skipped[where innerFS = exampleInnerFS and genc = exampleEncoder
      and key = "openKey 0 ''.''" and f = ?f and info = "FI exampleDir"
      and q = "Values_Add (Values_Add [] ''path'' ''.'') ''t'' (FormatInt 0)"
      and entries = exampleEntries and hb = "[0x2A, 0x01]", OF k o s exampleDir_IsDir r e]
    k o e sc exampleDir_IsDir
  show ?thesis by (simp add: Values_Get_path)
qed

end
